theory Spec2Isabelle
  imports Main "HOL-Library.Word" "HOL-Library.Signed_Division"
begin

unbundle bit_operations_syntax

section \<open>The native support layer of the virtual machine (vm/native/native.cpp)\<close>

text \<open>
  The file has two parts: ten arithmetic entry points on \<open>int64_t\<close> operands, and a bump
  allocator over two globals, \<open>heap\<close> and \<open>bump\<close>, of type \<open>uintptr_t\<close>.

  Integers. \<open>int64_t\<close> is \<open>64 word\<close> and \<open>int32_t\<close> is \<open>32 word\<close>, read as two's
  complement by \<open>sint\<close>. The operators \<open>+\<close>, \<open>-\<close>, \<open>*\<close> and unary \<open>-\<close> are the
  machine's: they wrap modulo the width, and a 64-bit shift takes the low six bits of
  its count. Two operations have no result, and are the fault branch of the model:
  \<open>/\<close> and \<open>%\<close> with a zero divisor, and \<open>/\<close> and \<open>%\<close> whose quotient is not
  representable (the most negative value by \<open>-1\<close>).
  \<open>uintptr_t\<close> is \<open>'a word\<close> for the pointer width \<open>'a\<close> of the target; unsigned
  arithmetic wraps modulo \<open>2 ^ LENGTH('a)\<close>.

  Operands. Every arithmetic entry point reads its operands through the pointers \<open>l\<close>,
  \<open>r\<close> before its only write, to \<open>*result\<close>; the model is the function from the values
  read to the value written.
\<close>

type_synonym int64 = "64 word"
type_synonym int32 = "32 word"

datatype fault = DivisionFault

definition INT64_MIN :: int64 where
  "INT64_MIN = - (2 ^ 63)"

definition INT64_MAX :: int64 where
  "INT64_MAX = 2 ^ 63 - 1"

subsection \<open>Arithmetic entry points\<close>

definition lAdd :: "int64 \<Rightarrow> int64 \<Rightarrow> int64" where
  "lAdd l r = l + r"

definition lNeg :: "int64 \<Rightarrow> int64" where
  "lNeg l = - l"

definition lSub :: "int64 \<Rightarrow> int64 \<Rightarrow> int64" where
  "lSub l r = l - r"

text \<open>
  \<open>*l / *r\<close> on \<open>int64_t\<close>: the quotient of the signed values, truncated towards zero
  (\<open>sdiv\<close> on \<open>int\<close>), where it exists and is representable.
\<close>

definition lDiv :: "int64 \<Rightarrow> int64 \<Rightarrow> fault + int64" where
  "lDiv l r =
     (if r = 0 \<or> (l = INT64_MIN \<and> r = - 1) then Inl DivisionFault
      else Inr (word_of_int (sint l sdiv sint r)))"

definition lMul :: "int64 \<Rightarrow> int64 \<Rightarrow> int64" where
  "lMul l r = l * r"

text \<open>\<open>*l % *r\<close>: the remainder of that division (\<open>smod\<close> on \<open>int\<close>), under the same
  conditions.\<close>

definition lRem :: "int64 \<Rightarrow> int64 \<Rightarrow> fault + int64" where
  "lRem l r =
     (if r = 0 \<or> (l = INT64_MIN \<and> r = - 1) then Inl DivisionFault
      else Inr (word_of_int (sint l smod sint r)))"

text \<open>
  The three shifts take their count \<open>v\<close> as an \<open>int32_t\<close>. The source has no branch on
  it: every count gives a value, and the 64-bit shift of the machine uses the low six
  bits of the count, \<open>v AND 63\<close>. \<open>*l << v\<close> shifts the bit pattern left, \<open>*l >> v\<close>
  shifts the signed operand right and keeps its sign, \<open>(uint64_t)*l >> v\<close> shifts the
  unsigned reading right.
\<close>

definition lShl :: "int64 \<Rightarrow> int32 \<Rightarrow> int64" where
  "lShl l v = push_bit (unat (v AND 63)) l"

definition lShr :: "int64 \<Rightarrow> int32 \<Rightarrow> int64" where
  "lShr l v = signed_drop_bit (unat (v AND 63)) l"

definition lUshr :: "int64 \<Rightarrow> int32 \<Rightarrow> int64" where
  "lUshr l v = drop_bit (unat (v AND 63)) l"

definition lCmp :: "int64 \<Rightarrow> int64 \<Rightarrow> int32" where
  "lCmp l r =
     (if sint l > sint r then 1
      else if sint l < sint r then - 1
      else 0)"

subsection \<open>The bump allocator\<close>

text \<open>The two globals of the file; both are zero until \<open>main\<close> has run.\<close>

record (overloaded) ('a :: len) globals =
  heap :: "'a word"
  bump :: "'a word"

definition globals_init :: "('a :: len) globals" where
  "globals_init = \<lparr>heap = 0, bump = 0\<rparr>"

text \<open>
  \<open>gcMalloc\<close>: \<open>(size + 3) & ~0x03\<close> is computed in \<open>int\<close> (32 bits), then converted to
  \<open>uintptr_t\<close> for \<open>+=\<close>: a sign extension (\<open>scast\<close>) where the pointer is wider than
  \<open>int\<close>. The parameter \<open>size\<close> is \<open>sz\<close> here. The returned pair is the function's
  value and the globals after the call.
\<close>

definition gcMalloc :: "int32 \<Rightarrow> ('a :: len) globals \<Rightarrow> 'a word \<times> 'a globals" where
  "gcMalloc sz g =
     (let curr = bump g;
          g' = g\<lparr>bump := bump g + scast ((sz + 3) AND NOT 3)\<rparr>
      in (curr, g'))"

text \<open>
  \<open>main\<close>: the host's \<open>malloc\<close> is a parameter, from the byte count requested to the
  address returned, \<open>0\<close> for the null pointer of a request that failed. \<open>main\<close> has no
  \<open>return\<close>, so its exit status is \<open>0\<close>.
\<close>

definition main :: "(nat \<Rightarrow> ('a :: len) word) \<Rightarrow> 'a globals \<Rightarrow> int32 \<times> 'a globals" where
  "main malloc g =
     (let p = malloc (1024 * 1024 * 16);
          g' = g\<lparr>heap := p, bump := p\<rparr>
      in (0, g'))"

text \<open>A host that cannot satisfy any request: \<open>malloc\<close> returns the null pointer.\<close>

definition malloc_null :: "nat \<Rightarrow> ('a :: len) word" where
  "malloc_null n = 0"

text \<open>A run of \<open>gcMalloc\<close> calls, one per requested size, in order: the addresses returned
  and the globals after the last call.\<close>

fun gcMallocs :: "int32 list \<Rightarrow> ('a :: len) globals \<Rightarrow> 'a word list \<times> 'a globals" where
  "gcMallocs [] g = ([], g)"
| "gcMallocs (sz # sizes) g =
     (let (a, g') = gcMalloc sz g;
          (as, g'') = gcMallocs sizes g'
      in (a # as, g''))"

text \<open>
  The amount by which one call moves \<open>bump\<close>, as a number of bytes: the value of the
  source's \<open>(size + 3) & ~0x03\<close>, where it is not negative.
\<close>

definition rounded :: "int32 \<Rightarrow> nat" where
  "rounded sz = nat (sint ((sz + 3) AND NOT 3))"

section \<open>Facts about the integer operations\<close>

lemma sint_range64: "- (2 ^ 63) \<le> sint (x :: int64) \<and> sint x < 2 ^ 63"
  using sint_ge [of x] sint_lt [of x] by simp

lemma sint_word_of_int64:
  assumes "- (2 ^ 63) \<le> k" "k < 2 ^ 63"
  shows "sint (word_of_int k :: int64) = k"
  using assms by (simp add: signed_of_int signed_take_bit_int_eq_self)

lemma sint_eq_min_iff: "sint (l :: int64) = - (2 ^ 63) \<longleftrightarrow> l = INT64_MIN"
proof
  assume "sint l = - (2 ^ 63)"
  then have "word_of_int (sint l) = (word_of_int (- (2 ^ 63)) :: int64)"
    by simp
  then show "l = INT64_MIN"
    by (simp add: INT64_MIN_def)
qed (simp add: INT64_MIN_def)

lemma sint_eq_minus_1_iff: "sint (r :: int64) = - 1 \<longleftrightarrow> r = - 1"
proof
  assume "sint r = - 1"
  then have "word_of_int (sint r) = (word_of_int (- 1) :: int64)"
    by simp
  then show "r = - 1"
    by simp
qed simp

lemma sint_eqD64: "sint (a :: int64) = sint b \<Longrightarrow> a = b"
  by (metis signed_word_eqI)

lemma sint_neg64:
  assumes "x \<noteq> INT64_MIN"
  shows "sint (- x) = - sint x"
proof -
  have "sint x \<noteq> - (2 ^ 63)"
    using assms sint_eq_min_iff [of x] by blast
  with sint_range64 [of x] have "- (2 ^ 63) \<le> - sint x" "- sint x < 2 ^ 63"
    by simp_all
  then have "signed_take_bit 63 (- sint x) = - sint x"
    by (simp add: signed_take_bit_int_eq_self)
  then show ?thesis
    by (simp add: sint_word_ariths)
qed

text \<open>The low six bits of a 32-bit count are the signed count modulo 64.\<close>

lemma shift_count_mod_64: "unat ((v :: int32) AND 63) = nat (sint v mod 64)"
proof -
  have "(63 :: int32) = mask 6"
    by (simp add: mask_eq_exp_minus_1)
  then have "v AND 63 = take_bit 6 v"
    by (simp only: take_bit_eq_mask)
  then have "uint (v AND 63) = take_bit 6 (uint v)"
    by (simp only: unsigned_take_bit_eq)
  also have "\<dots> = take_bit 6 (signed_take_bit 31 (uint v))"
    by (simp add: take_bit_signed_take_bit)
  also have "signed_take_bit 31 (uint v) = sint v"
    by (simp add: sint_uint)
  finally have "uint (v AND 63) = sint v mod 64"
    by (simp add: take_bit_eq_mod)
  then have "nat (uint (v AND 63)) = nat (sint v mod 64)"
    by simp
  then show ?thesis
    by simp
qed

subsection \<open>Truncating division on \<open>int\<close>\<close>

lemma abs_div_abs_nonneg:
  fixes a b :: int
  shows "0 \<le> \<bar>a\<bar> div \<bar>b\<bar>"
  by (simp add: div_int_pos_iff)

lemma abs_mod_abs_nonneg:
  fixes a b :: int
  shows "0 \<le> \<bar>a\<bar> mod \<bar>b\<bar>"
  by (cases "b = 0") simp_all

lemma abs_sdiv_le:
  fixes a b :: int
  shows "\<bar>a sdiv b\<bar> \<le> \<bar>a\<bar> div \<bar>b\<bar>"
  using abs_div_abs_nonneg [of a b]
  by (cases "a = 0"; cases "b = 0") (simp_all add: signed_divide_int_def abs_mult)

lemma div_abs_le:
  fixes a b :: int
  shows "\<bar>a\<bar> div \<bar>b\<bar> \<le> \<bar>a\<bar>"
  by (metis abs_of_nonneg div_0 dual_order.refl int_div_le_self zero_less_abs_iff)

lemma abs_smod:
  fixes a b :: int
  shows "\<bar>a smod b\<bar> = \<bar>a\<bar> mod \<bar>b\<bar>"
  using abs_mod_abs_nonneg [of a b]
  by (cases "a = 0") (simp_all add: signed_modulo_int_def abs_mult)

lemma sgn_smod:
  fixes a b :: int
  assumes "a smod b \<noteq> 0"
  shows "sgn (a smod b) = sgn a"
proof -
  define m where "m = \<bar>a\<bar> mod \<bar>b\<bar>"
  have "0 \<le> m"
    unfolding m_def by (rule abs_mod_abs_nonneg)
  have eq: "a smod b = sgn a * m"
    by (simp add: signed_modulo_int_def m_def)
  with assms have "m \<noteq> 0" by auto
  with \<open>0 \<le> m\<close> have "0 < m" by simp
  then show ?thesis
    by (simp add: eq sgn_mult)
qed

text \<open>The quotient fits in 64 bits except for the most negative value divided by \<open>-1\<close>.\<close>

lemma sdiv_in_range:
  fixes a b :: int
  assumes a: "- (2 ^ 63) \<le> a" "a < 2 ^ 63" and b: "b \<noteq> 0"
    and nm: "\<not> (a = - (2 ^ 63) \<and> b = - 1)"
  shows "- (2 ^ 63) \<le> a sdiv b \<and> a sdiv b < 2 ^ 63"
proof (cases "a = - (2 ^ 63)")
  case True
  with nm have "b \<noteq> - 1" by simp
  show ?thesis
  proof (cases "0 < b")
    case True
    then have "a sdiv b = - (2 ^ 63 div b)"
      using \<open>a = - (2 ^ 63)\<close> by (simp add: signed_divide_int_def)
    moreover have "(2 ^ 63 :: int) div b \<le> 2 ^ 63"
      using True by (simp add: int_div_le_self)
    moreover have "0 \<le> (2 ^ 63 :: int) div b"
      using True by (simp add: div_int_pos_iff)
    ultimately show ?thesis by simp
  next
    case False
    with b \<open>b \<noteq> - 1\<close> have "2 \<le> - b" by simp
    have "a sdiv b = 2 ^ 63 div (- b)"
      using \<open>a = - (2 ^ 63)\<close> \<open>2 \<le> - b\<close> by (simp add: signed_divide_int_def)
    moreover have "(2 ^ 63 :: int) div (- b) \<le> 2 ^ 63 div 2"
      using \<open>2 \<le> - b\<close> by (intro zdiv_mono2) simp_all
    moreover have "0 \<le> (2 ^ 63 :: int) div (- b)"
      using \<open>2 \<le> - b\<close> by (simp add: div_int_pos_iff)
    ultimately show ?thesis by simp
  qed
next
  case False
  with a have "\<bar>a\<bar> < 2 ^ 63" by simp
  with abs_sdiv_le [of a b] div_abs_le [of a b] have "\<bar>a sdiv b\<bar> < 2 ^ 63"
    by simp
  then show ?thesis by (simp add: abs_less_iff)
qed

lemma smod_in_range:
  fixes a b :: int
  assumes a: "- (2 ^ 63) \<le> a" "a < 2 ^ 63"
  shows "- (2 ^ 63) \<le> a smod b \<and> a smod b < 2 ^ 63"
proof -
  define m where "m = \<bar>a\<bar> mod \<bar>b\<bar>"
  have "0 \<le> m"
    unfolding m_def by (rule abs_mod_abs_nonneg)
  have "m \<le> \<bar>a\<bar>"
    unfolding m_def by (simp add: zmod_le_nonneg_dividend)
  have eq: "a smod b = sgn a * m"
    by (simp add: signed_modulo_int_def m_def)
  show ?thesis
  proof (cases "0 \<le> a")
    case True
    with \<open>0 \<le> m\<close> \<open>m \<le> \<bar>a\<bar>\<close> a show ?thesis
      by (cases "a = 0") (simp_all add: eq)
  next
    case False
    with \<open>0 \<le> m\<close> \<open>m \<le> \<bar>a\<bar>\<close> a show ?thesis
      by (simp add: eq)
  qed
qed

lemma sint_lDiv:
  fixes l r :: int64
  assumes "r \<noteq> 0" "\<not> (l = INT64_MIN \<and> r = - 1)"
  shows "sint (word_of_int (sint l sdiv sint r) :: int64) = sint l sdiv sint r"
proof -
  have nz: "sint r \<noteq> 0"
    using assms(1) by (simp add: signed_eq_0_iff)
  have nm: "\<not> (sint l = - (2 ^ 63) \<and> sint r = - 1)"
    using assms(2) sint_eq_min_iff [of l] sint_eq_minus_1_iff [of r] by blast
  from sint_range64 [of l] have lo: "- (2 ^ 63) \<le> sint l" and hi: "sint l < 2 ^ 63"
    by blast+
  from sdiv_in_range [OF lo hi nz nm] show ?thesis
    by (intro sint_word_of_int64) blast+
qed

lemma sint_lRem:
  "sint (word_of_int (sint (l :: int64) smod sint (r :: int64)) :: int64) = sint l smod sint r"
proof -
  from sint_range64 [of l] have lo: "- (2 ^ 63) \<le> sint l" and hi: "sint l < 2 ^ 63"
    by blast+
  from smod_in_range [OF lo hi, of "sint r"] show ?thesis
    by (intro sint_word_of_int64) blast+
qed

section \<open>Facts about the allocator\<close>

subsection \<open>Rounding and alignment\<close>

lemma and_minus_4_int: "(k::int) AND - 4 = k div 4 * 4"
proof -
  have *: "Suc (Suc (n - 2)) = n" if "2 \<le> n" for n
    using that by arith
  have "k AND NOT (mask 2) = push_bit 2 (drop_bit 2 k)"
    by (rule bit_eqI) (auto simp: bit_simps not_less *)
  moreover have "NOT (mask 2) = (- 4 :: int)"
    using minus_exp_eq_not_mask [of 2, where ?'a = int] by simp
  ultimately show ?thesis
    by (simp add: push_bit_eq_mult drop_bit_eq_div)
qed

lemma sint_and_not_3: "sint ((x::int32) AND NOT 3) = sint x div 4 * 4"
proof -
  have "sint (x AND NOT 3) = sint x AND sint (NOT 3 :: int32)"
    by (simp only: signed_and_eq)
  also have "sint (NOT 3 :: int32) = - 4"
    by simp
  finally show ?thesis
    by (simp add: and_minus_4_int)
qed

lemma sint_add_3:
  assumes "sint (sz :: int32) \<le> 2 ^ 31 - 4"
  shows "sint (sz + 3) = sint sz + 3"
proof -
  have "- (2 ^ 31) \<le> sint sz"
    using sint_ge [of sz] by simp
  with assms have "signed_take_bit 31 (sint sz + 3) = sint sz + 3"
    by (simp add: signed_take_bit_int_eq_self)
  then show ?thesis
    by (simp add: sint_word_ariths)
qed

lemma rounded_sint:
  assumes "sint (sz :: int32) \<le> 2 ^ 31 - 4"
  shows "sint ((sz + 3) AND NOT 3) = (sint sz + 3) div 4 * 4"
  by (simp only: sint_and_not_3 sint_add_3 [OF assms])

lemma four_dvd_rounded: "4 dvd sint (((sz :: int32) + 3) AND NOT 3)"
  by (simp only: sint_and_not_3) simp

lemma aligned_iff: "(4 dvd unat (w :: 'a :: len word)) = (take_bit 2 w = 0)"
proof -
  have "take_bit 2 w = 0 \<longleftrightarrow> unat (take_bit 2 w) = 0"
    by (simp add: unat_eq_0)
  also have "\<dots> \<longleftrightarrow> take_bit 2 (unat w) = 0"
    by (simp add: unsigned_take_bit_eq)
  also have "\<dots> \<longleftrightarrow> 4 dvd unat w"
    by (simp add: take_bit_eq_0_iff)
  finally show ?thesis ..
qed

lemma aligned_scast:
  assumes "4 dvd sint (x :: int32)"
  shows "4 dvd unat (scast x :: 'a :: len word)"
proof -
  from assms obtain k where "sint x = 4 * k" ..
  then have "(scast x :: 'a word) = 4 * word_of_int k"
    by (simp add: scast_eq)
  then have "take_bit 2 (scast x :: 'a word) = 0"
    by (simp add: take_bit_eq_0_iff)
  then show ?thesis
    by (simp only: aligned_iff)
qed

lemma aligned_add:
  assumes "4 dvd unat (a :: 'a :: len word)" "4 dvd unat b"
  shows "4 dvd unat (a + b)"
  using assms unfolding aligned_iff by (simp add: take_bit_eq_0_iff)

lemma unat_plus_of_nat:
  assumes "unat (a :: 'a :: len word) + k < 2 ^ LENGTH('a)"
  shows "unat (a + of_nat k) = unat a + k"
proof -
  have "k < 2 ^ LENGTH('a)"
    using assms by simp
  then have "unat (of_nat k :: 'a word) = k"
    by (simp add: unat_of_nat take_bit_nat_eq_self)
  with assms show ?thesis
    by (simp add: unat_add_lem [THEN iffD1])
qed

lemma gcMalloc_fst: "fst (gcMalloc sz g) = bump g"
  by (simp add: gcMalloc_def Let_def)

lemma gcMalloc_bump: "bump (snd (gcMalloc sz g)) = bump g + scast ((sz + 3) AND NOT 3)"
  by (simp add: gcMalloc_def Let_def)

lemma gcMalloc_heap: "heap (snd (gcMalloc sz g)) = heap g"
  by (simp add: gcMalloc_def Let_def)

lemma gcMallocs_fst_Cons:
  "fst (gcMallocs (sz # sizes) g) = bump g # fst (gcMallocs sizes (snd (gcMalloc sz g)))"
  by (simp add: split_beta gcMalloc_fst)

lemma gcMallocs_snd_Cons:
  "snd (gcMallocs (sz # sizes) g) = snd (gcMallocs sizes (snd (gcMalloc sz g)))"
  by (simp add: split_beta)

lemma scast_rounded:
  assumes "- 3 \<le> sint sz" "sint sz \<le> 2 ^ 31 - 4"
  shows "(scast ((sz + 3) AND NOT 3) :: 'a :: len word) = of_nat (rounded sz)"
proof -
  have "0 \<le> sint ((sz + 3) AND NOT 3)"
    using assms by (simp only: rounded_sint) simp
  then show ?thesis
    by (simp add: rounded_def)
qed

lemma rounded_eq:
  assumes "- 3 \<le> sint sz" "sint sz \<le> 2 ^ 31 - 4"
  shows "int (rounded sz) = (sint sz + 3) div 4 * 4"
proof -
  have e: "sint ((sz + 3) AND NOT 3) = (sint sz + 3) div 4 * 4"
    by (rule rounded_sint [OF assms(2)])
  have "0 \<le> (sint sz + 3) div 4 * 4"
    using assms(1) by simp
  then show ?thesis
    unfolding rounded_def e by simp
qed

lemma gcMalloc_bump_unat:
  assumes "- 3 \<le> sint sz" "sint sz \<le> 2 ^ 31 - 4"
    and "unat (bump g) + rounded sz < 2 ^ LENGTH('a)"
  shows "unat (bump (snd (gcMalloc sz (g :: ('a :: len) globals)))) = unat (bump g) + rounded sz"
  by (simp only: gcMalloc_bump scast_rounded [OF assms(1,2)] unat_plus_of_nat [OF assms(3)])

text \<open>A size of \<open>-4\<close> or less rounds to a negative amount: \<open>bump\<close> moves back.\<close>

lemma unat_minus_of_nat:
  assumes "k \<le> unat (a :: 'a :: len word)"
  shows "unat (a - of_nat k) = unat a - k"
proof -
  have "k < 2 ^ LENGTH('a)"
    using assms unsigned_less [of a] by (rule le_less_trans)
  then have k: "unat (of_nat k :: 'a word) = k"
    by (simp add: unat_of_nat take_bit_nat_eq_self)
  with assms have "(of_nat k :: 'a word) \<le> a"
    by (simp add: word_le_nat_alt)
  then show ?thesis
    by (simp add: unat_sub k)
qed

lemma scast_rounded_neg:
  assumes "sint (sz :: int32) \<le> - 4"
  shows "(scast ((sz + 3) AND NOT 3) :: 'a :: len word) = - of_nat (nat (- ((sint sz + 3) div 4 * 4)))"
    and "4 \<le> nat (- ((sint sz + 3) div 4 * 4))"
proof -
  have e: "sint ((sz + 3) AND NOT 3) = (sint sz + 3) div 4 * 4"
    using assms by (intro rounded_sint) simp
  have neg: "(sint sz + 3) div 4 * 4 \<le> - 4"
    using assms by simp
  then show "4 \<le> nat (- ((sint sz + 3) div 4 * 4))"
    by simp
  have "(scast ((sz + 3) AND NOT 3) :: 'a word) = word_of_int ((sint sz + 3) div 4 * 4)"
    by (simp only: scast_eq e)
  also have "\<dots> = - word_of_int (- ((sint sz + 3) div 4 * 4))"
    by simp
  also have "word_of_int (- ((sint sz + 3) div 4 * 4)) = (of_nat (nat (- ((sint sz + 3) div 4 * 4))) :: 'a word)"
    using neg by simp
  finally show "(scast ((sz + 3) AND NOT 3) :: 'a word) = - of_nat (nat (- ((sint sz + 3) div 4 * 4)))" .
qed

lemma gcMalloc_bump_back:
  assumes "sint sz \<le> - 4" "nat (- ((sint sz + 3) div 4 * 4)) \<le> unat (bump g)"
  shows "bump (snd (gcMalloc sz (g :: ('a :: len) globals))) < bump g"
proof -
  define m where "m = nat (- ((sint sz + 3) div 4 * 4))"
  have "bump (snd (gcMalloc sz g)) = bump g - of_nat m"
    by (simp only: gcMalloc_bump scast_rounded_neg(1) [OF assms(1)] m_def) simp
  moreover have "unat (bump g - of_nat m) = unat (bump g) - m"
    using assms(2) by (intro unat_minus_of_nat) (simp add: m_def)
  moreover have "4 \<le> m"
    unfolding m_def by (rule scast_rounded_neg(2) [OF assms(1)])
  ultimately show ?thesis
    using assms(2) by (simp add: word_less_nat_alt m_def)
qed

subsection \<open>Runs of calls\<close>

lemma gcMallocs_length: "length (fst (gcMallocs sizes g)) = length sizes"
  by (induction sizes arbitrary: g) (simp_all add: split_beta)

lemma gcMallocs_heap: "heap (snd (gcMallocs sizes g)) = heap g"
  by (induction sizes arbitrary: g) (simp_all add: split_beta gcMalloc_heap)

lemma gcMallocs_aligned:
  assumes "4 dvd unat (bump g - h)"
  shows "4 dvd unat (bump (snd (gcMallocs sizes g)) - h) \<and>
         (\<forall>a \<in> set (fst (gcMallocs sizes g)). 4 dvd unat (a - h))"
  using assms
proof (induction sizes arbitrary: g)
  case Nil
  then show ?case by simp
next
  case (Cons sz sizes)
  have "bump (snd (gcMalloc sz g)) - h = (bump g - h) + scast ((sz + 3) AND NOT 3)"
    by (simp add: gcMalloc_bump)
  then have "4 dvd unat (bump (snd (gcMalloc sz g)) - h)"
    using Cons.prems by (simp only: aligned_add aligned_scast four_dvd_rounded)
  from Cons.IH [OF this] Cons.prems show ?case
    by (simp add: gcMallocs_fst_Cons gcMallocs_snd_Cons del: gcMallocs.simps)
qed

lemma rounded_ge:
  assumes "0 < sint sz" "sint sz \<le> 2 ^ 31 - 4"
  shows "nat (sint sz) \<le> rounded sz" "0 < rounded sz"
proof -
  have "int (rounded sz) = (sint sz + 3) div 4 * 4"
    using assms by (intro rounded_eq) simp_all
  with assms(1) have "sint sz \<le> int (rounded sz)"
    by simp
  with assms(1) show "nat (sint sz) \<le> rounded sz" "0 < rounded sz"
    by simp_all
qed

lemma sum_list_take_le:
  fixes xs :: "nat list"
  shows "sum_list (take k xs) \<le> sum_list xs"
proof -
  have "sum_list xs = sum_list (take k xs) + sum_list (drop k xs)"
    by (metis append_take_drop_id sum_list_append)
  then show ?thesis by simp
qed

lemma prefix_sum_step:
  fixes xs :: "nat list"
  assumes "i < j" "j \<le> length xs"
  shows "sum_list (take i xs) + xs ! i \<le> sum_list (take j xs)"
proof -
  have i: "i < length (take j xs)"
    using assms by simp
  have "sum_list (take i xs) + xs ! i = sum_list (take (Suc i) (take j xs))"
    using assms i by (simp add: take_Suc_conv_app_nth min_def)
  also have "\<dots> \<le> sum_list (take j xs)"
    by (rule sum_list_take_le)
  finally show ?thesis .
qed

lemma gcMallocs_nth:
  assumes "\<forall>sz \<in> set sizes. 0 < sint sz \<and> sint sz \<le> 2 ^ 31 - 4"
    and "unat (bump g) + sum_list (map rounded sizes) \<le> 2 ^ LENGTH('a)"
    and "i < length sizes"
  shows "unat (fst (gcMallocs sizes (g :: ('a :: len) globals)) ! i) =
         unat (bump g) + sum_list (take i (map rounded sizes))"
  using assms
proof (induction sizes arbitrary: g i)
  case Nil
  then show ?case by simp
next
  case (Cons sz sizes)
  show ?case
  proof (cases i)
    case 0
    then show ?thesis
      by (simp add: gcMallocs_fst_Cons del: gcMallocs.simps)
  next
    case (Suc j)
    with Cons.prems have j: "j < length sizes" by simp
    then have "sizes ! j \<in> set sizes" by simp
    with Cons.prems(1) have "0 < rounded (sizes ! j)"
      by (intro rounded_ge) simp_all
    moreover have "rounded (sizes ! j) \<le> sum_list (map rounded sizes)"
      using j by (intro member_le_sum_list) simp_all
    ultimately have "unat (bump g) + rounded sz < 2 ^ LENGTH('a)"
      using Cons.prems(2) by simp
    moreover have "- 3 \<le> sint sz" "sint sz \<le> 2 ^ 31 - 4"
      using Cons.prems(1) by simp_all
    ultimately have b: "unat (bump (snd (gcMalloc sz g))) = unat (bump g) + rounded sz"
      by (intro gcMalloc_bump_unat)
    have "unat (fst (gcMallocs sizes (snd (gcMalloc sz g))) ! j) =
          unat (bump (snd (gcMalloc sz g))) + sum_list (take j (map rounded sizes))"
      using Cons.prems j by (intro Cons.IH) (simp_all add: b)
    then show ?thesis
      by (simp add: gcMallocs_fst_Cons Suc b del: gcMallocs.simps)
  qed
qed

lemma gcMallocs_apart:
  assumes "\<forall>sz \<in> set sizes. 0 < sint sz \<and> sint sz \<le> 2 ^ 31 - 4"
    and "unat (bump g) + sum_list (map rounded sizes) \<le> 2 ^ LENGTH('a)"
    and "i < j" "j < length sizes"
  shows "unat (fst (gcMallocs sizes (g :: ('a :: len) globals)) ! i) + rounded (sizes ! i)
         \<le> unat (fst (gcMallocs sizes g) ! j)"
proof -
  have "sum_list (take i (map rounded sizes)) + map rounded sizes ! i
        \<le> sum_list (take j (map rounded sizes))"
    using assms(3,4) by (intro prefix_sum_step) simp_all
  moreover have "map rounded sizes ! i = rounded (sizes ! i)"
    using assms(3,4) by simp
  moreover have "i < length sizes"
    using assms(3,4) by simp
  ultimately show ?thesis
    using assms by (simp add: gcMallocs_nth)
qed

section \<open>The claims about the allocator and the arithmetic entry points\<close>

text \<open>
  Claim C1. In every state of the allocator, \<open>gcMalloc\<close> returns the current \<open>bump\<close>
  and then advances \<open>bump\<close> by \<open>(size + 3) & ~3\<close>, leaving \<open>heap\<close> alone. So the
  calls with sizes 10, 20 and 1 return the offsets 0, 12 and 32 from where \<open>bump\<close> stood
  before them, which after \<open>main\<close> is the base that \<open>malloc\<close> returned.
\<close>

theorem gcMalloc_returns_bump_then_advances:
  "fst (gcMalloc sz g) = bump g \<and>
   bump (snd (gcMalloc sz g)) = bump g + scast ((sz + 3) AND NOT 3) \<and>
   heap (snd (gcMalloc sz g)) = heap g \<and>
   gcMallocs [10, 20, 1] g = ([bump g, bump g + 12, bump g + 32], g\<lparr>bump := bump g + 36\<rparr>) \<and>
   gcMallocs [10, 20, 1] (snd (main malloc g)) =
     ([malloc 16777216, malloc 16777216 + 12, malloc 16777216 + 32],
      \<lparr>heap = malloc 16777216, bump = malloc 16777216 + 36\<rparr>)"
  by (cases g) (simp add: gcMalloc_def main_def Let_def)

text \<open>
  Claim C2, as stated, fails: positive sizes alone do not keep the addresses increasing.
  With 32-bit pointers and the base at 65536, two calls of size 2147483644 carry \<open>bump\<close>
  around the end of the address space; the third call returns 65528, below the first
  address, and its 16 bytes contain the first address. With 64-bit pointers, a call of
  size 2147483647 moves \<open>bump\<close> back by \<open>2 ^ 31\<close>, since \<open>size + 3\<close> is negative in 32 bits.
\<close>

theorem gcMallocs_positive_sizes_not_increasing:
  "0 < sint (2147483644 :: int32) \<and> 0 < sint (16 :: int32) \<and>
   fst (gcMallocs [2147483644, 2147483644, 16] \<lparr>heap = 65536, bump = 65536 :: 32 word\<rparr>)
     = [65536, 2147549180, 65528] \<and>
   \<not> sorted_wrt (<) [65536, 2147549180, 65528 :: 32 word] \<and>
   unat (65536 :: 32 word) \<in> {unat (65528 :: 32 word) ..< unat (65528 :: 32 word) + rounded 16} \<and>
   0 < sint (2147483647 :: int32) \<and> 0 < sint (4 :: int32) \<and>
   fst (gcMallocs [2147483647, 4] \<lparr>heap = 4294967296, bump = 4294967296 :: 64 word\<rparr>)
     = [4294967296, 2147483648] \<and>
   \<not> sorted_wrt (<) [4294967296, 2147483648 :: 64 word]"
  by (simp add: gcMalloc_def rounded_def)

text \<open>
  Claim C2, amended. Start with \<open>bump = heap\<close> and make a run of calls whose sizes are
  positive, at most \<open>2 ^ 31 - 4\<close>, and whose rounded sizes together fit between the base
  and the end of the address space (as they do within the reserved block). Then there is
  one address per call, the addresses are strictly increasing, the byte ranges
  \<open>[addr, addr + rounded size)\<close> of two different calls are disjoint, each range holds
  at least the requested size, and every address is a multiple of 4 away from the base.
\<close>

theorem gcMallocs_increasing_disjoint_aligned:
  assumes "bump g = heap g"
    and "\<forall>sz \<in> set sizes. 0 < sint sz \<and> sint sz \<le> 2 ^ 31 - 4"
    and "unat (heap g) + sum_list (map rounded sizes) \<le> 2 ^ LENGTH('a)"
  shows "length (fst (gcMallocs sizes (g :: ('a :: len) globals))) = length sizes \<and>
    sorted_wrt (<) (fst (gcMallocs sizes g)) \<and>
    (\<forall>i j. i < length sizes \<and> j < length sizes \<and> i \<noteq> j \<longrightarrow>
       {unat (fst (gcMallocs sizes g) ! i) ..<
          unat (fst (gcMallocs sizes g) ! i) + rounded (sizes ! i)} \<inter>
       {unat (fst (gcMallocs sizes g) ! j) ..<
          unat (fst (gcMallocs sizes g) ! j) + rounded (sizes ! j)} = {}) \<and>
    (\<forall>i < length sizes. nat (sint (sizes ! i)) \<le> rounded (sizes ! i)) \<and>
    (\<forall>a \<in> set (fst (gcMallocs sizes g)). 4 dvd unat (a - heap g))"
proof (intro conjI allI impI)
  show "length (fst (gcMallocs sizes g)) = length sizes"
    by (rule gcMallocs_length)
  have b: "unat (bump g) + sum_list (map rounded sizes) \<le> 2 ^ LENGTH('a)"
    using assms(1,3) by simp
  have apart: "unat (fst (gcMallocs sizes g) ! i) + rounded (sizes ! i)
         \<le> unat (fst (gcMallocs sizes g) ! j)" if "i < j" "j < length sizes" for i j
    using assms(2) b that by (rule gcMallocs_apart)
  have pos: "0 < rounded (sizes ! i)" if "i < length sizes" for i
    using assms(2) that by (intro rounded_ge) simp_all
  show "sorted_wrt (<) (fst (gcMallocs sizes g))"
    unfolding sorted_wrt_iff_nth_less gcMallocs_length word_less_nat_alt
  proof (intro allI impI)
    fix i j :: nat
    assume "i < j" "j < length sizes"
    with apart [of i j] pos [of i]
    show "unat (fst (gcMallocs sizes g) ! i) < unat (fst (gcMallocs sizes g) ! j)"
      by simp
  qed
  show "\<forall>a \<in> set (fst (gcMallocs sizes g)). 4 dvd unat (a - heap g)"
    using gcMallocs_aligned [of g "heap g" sizes] assms(1) by simp
next
  fix i
  assume "i < length sizes"
  with assms(2) show "nat (sint (sizes ! i)) \<le> rounded (sizes ! i)"
    by (intro rounded_ge) simp_all
next
  fix i j
  assume ij: "i < length sizes \<and> j < length sizes \<and> i \<noteq> j"
  have b: "unat (bump g) + sum_list (map rounded sizes) \<le> 2 ^ LENGTH('a)"
    using assms(1,3) by simp
  have apart: "unat (fst (gcMallocs sizes g) ! i) + rounded (sizes ! i)
         \<le> unat (fst (gcMallocs sizes g) ! j)" if "i < j" "j < length sizes" for i j
    using assms(2) b that by (rule gcMallocs_apart)
  from ij consider "i < j" | "j < i" by arith
  then show "{unat (fst (gcMallocs sizes g) ! i) ..<
          unat (fst (gcMallocs sizes g) ! i) + rounded (sizes ! i)} \<inter>
       {unat (fst (gcMallocs sizes g) ! j) ..<
          unat (fst (gcMallocs sizes g) ! j) + rounded (sizes ! j)} = {}"
  proof cases
    case 1
    with apart [of i j] ij show ?thesis by auto
  next
    case 2
    with apart [of j i] ij show ?thesis by auto
  qed
qed

theorem gcMallocs_increasing_disjoint_aligned_witness:
  "bump \<lparr>heap = 4096, bump = 4096 :: 32 word\<rparr> = heap \<lparr>heap = 4096, bump = 4096 :: 32 word\<rparr> \<and>
   0 < sint (10 :: int32) \<and> sint (10 :: int32) \<le> 2 ^ 31 - 4 \<and>
   0 < sint (20 :: int32) \<and> sint (20 :: int32) \<le> 2 ^ 31 - 4 \<and>
   0 < sint (1 :: int32) \<and> sint (1 :: int32) \<le> 2 ^ 31 - 4 \<and>
   unat (heap \<lparr>heap = 4096, bump = 4096 :: 32 word\<rparr>) + sum_list (map rounded [10, 20, 1])
     \<le> 2 ^ LENGTH(32) \<and>
   fst (gcMallocs [10, 20, 1] \<lparr>heap = 4096, bump = 4096 :: 32 word\<rparr>) = [4096, 4108, 4128] \<and>
   sorted_wrt (<) (fst (gcMallocs [10, 20, 1] \<lparr>heap = 4096, bump = 4096 :: 32 word\<rparr>)) \<and>
   {unat (4096 :: 32 word) ..< unat (4096 :: 32 word) + rounded 10} \<inter>
     {unat (4108 :: 32 word) ..< unat (4108 :: 32 word) + rounded 20} = {} \<and>
   4 dvd unat (4108 - heap \<lparr>heap = 4096, bump = 4096 :: 32 word\<rparr>)"
proof -
  define g :: "32 globals" where "g = \<lparr>heap = 4096, bump = 4096\<rparr>"
  have h1: "bump g = heap g"
    by (simp add: g_def)
  have h2: "\<forall>sz \<in> set [10, 20, 1 :: int32]. 0 < sint sz \<and> sint sz \<le> 2 ^ 31 - 4"
    by simp
  have r: "rounded 10 = 12" "rounded 20 = 20" "rounded 1 = 4"
    by (simp_all add: rounded_def)
  have h3: "unat (heap g) + sum_list (map rounded [10, 20, 1]) \<le> 2 ^ LENGTH(32)"
    by (simp add: g_def r)
  have as: "fst (gcMallocs [10, 20, 1] g) = [4096, 4108, 4128]"
    by (simp add: gcMalloc_def g_def)
  note t = gcMallocs_increasing_disjoint_aligned [OF h1 h2 h3]
  from t have s: "sorted_wrt (<) (fst (gcMallocs [10, 20, 1] g))"
    by blast
  from t have "\<forall>i j. i < length [10, 20, 1 :: int32] \<and> j < length [10, 20, 1 :: int32] \<and> i \<noteq> j \<longrightarrow>
       {unat (fst (gcMallocs [10, 20, 1] g) ! i) ..<
          unat (fst (gcMallocs [10, 20, 1] g) ! i) + rounded ([10, 20, 1] ! i)} \<inter>
       {unat (fst (gcMallocs [10, 20, 1] g) ! j) ..<
          unat (fst (gcMallocs [10, 20, 1] g) ! j) + rounded ([10, 20, 1] ! j)} = {}"
    by blast
  then have "{unat (fst (gcMallocs [10, 20, 1] g) ! 0) ..<
          unat (fst (gcMallocs [10, 20, 1] g) ! 0) + rounded ([10, 20, 1] ! 0)} \<inter>
       {unat (fst (gcMallocs [10, 20, 1] g) ! 1) ..<
          unat (fst (gcMallocs [10, 20, 1] g) ! 1) + rounded ([10, 20, 1] ! 1)} = {}"
    by (elim allE [of _ 0] allE [of _ 1] impE) simp_all
  then have d: "{unat (4096 :: 32 word) ..< unat (4096 :: 32 word) + rounded 10} \<inter>
     {unat (4108 :: 32 word) ..< unat (4108 :: 32 word) + rounded 20} = {}"
    by (simp only: as nth_Cons_0 nth_Cons_Suc One_nat_def)
  from t have "\<forall>a \<in> set (fst (gcMallocs [10, 20, 1] g)). 4 dvd unat (a - heap g)"
    by blast
  then have a: "4 dvd unat (4108 - heap g)"
    by (simp only: as) simp
  from h1 h3 as s d a show ?thesis
    unfolding g_def by simp
qed

text \<open>
  Claim C3, as stated, fails: a size of \<open>-8\<close> is accepted and rounds to \<open>-8\<close>, so \<open>bump\<close>
  goes from 16 back to 8.
\<close>

theorem gcMalloc_negative_size_lowers_bump:
  "bump (snd (gcMalloc (- 8) \<lparr>heap = 16, bump = 16 :: 64 word\<rparr>)) = 8 \<and>
   \<not> bump \<lparr>heap = 16, bump = 16 :: 64 word\<rparr>
        \<le> bump (snd (gcMalloc (- 8) \<lparr>heap = 16, bump = 16 :: 64 word\<rparr>))"
  by (simp add: gcMalloc_def)

text \<open>
  Claim C3, amended. For every call whose size is at least \<open>-3\<close> and at most
  \<open>2 ^ 31 - 4\<close>, and whose rounded size does not carry \<open>bump\<close> past the end of the address
  space, \<open>bump\<close> after the call is \<open>bump\<close> before it plus the size rounded up to a multiple
  of 4, hence not below its value before the call. A size of \<open>-4\<close> or less is accepted
  like any other, and \<open>bump\<close> after the call is below its value before (where \<open>bump\<close> is
  at least the rounded amount above the start of the address space).
\<close>

theorem gcMalloc_bump_nondecreasing:
  "(- 3 \<le> sint sz \<and> sint sz \<le> 2 ^ 31 - 4 \<and>
      unat (bump g) + rounded sz < 2 ^ LENGTH('a) \<longrightarrow>
    int (rounded sz) = (sint sz + 3) div 4 * 4 \<and>
    unat (bump (snd (gcMalloc sz (g :: ('a :: len) globals)))) = unat (bump g) + rounded sz \<and>
    bump g \<le> bump (snd (gcMalloc sz g))) \<and>
   (sint sz \<le> - 4 \<and> nat (- ((sint sz + 3) div 4 * 4)) \<le> unat (bump g) \<longrightarrow>
    bump (snd (gcMalloc sz g)) < bump g)"
proof (intro conjI impI)
  assume h: "- 3 \<le> sint sz \<and> sint sz \<le> 2 ^ 31 - 4 \<and>
    unat (bump g) + rounded sz < 2 ^ LENGTH('a)"
  then show "int (rounded sz) = (sint sz + 3) div 4 * 4"
    by (intro rounded_eq) simp_all
  from h show u: "unat (bump (snd (gcMalloc sz g))) = unat (bump g) + rounded sz"
    by (intro gcMalloc_bump_unat) simp_all
  then show "bump g \<le> bump (snd (gcMalloc sz g))"
    by (simp add: word_le_nat_alt)
next
  assume "sint sz \<le> - 4 \<and> nat (- ((sint sz + 3) div 4 * 4)) \<le> unat (bump g)"
  then show "bump (snd (gcMalloc sz g)) < bump g"
    by (intro gcMalloc_bump_back) simp_all
qed

theorem gcMalloc_bump_nondecreasing_witness:
  "- 3 \<le> sint (10 :: int32) \<and> sint (10 :: int32) \<le> 2 ^ 31 - 4 \<and>
   unat (bump \<lparr>heap = 16, bump = 16 :: 64 word\<rparr>) + rounded 10 < 2 ^ LENGTH(64) \<and>
   rounded 10 = 12 \<and>
   unat (bump (snd (gcMalloc 10 \<lparr>heap = 16, bump = 16 :: 64 word\<rparr>))) = 28 \<and>
   bump \<lparr>heap = 16, bump = 16 :: 64 word\<rparr>
     \<le> bump (snd (gcMalloc 10 \<lparr>heap = 16, bump = 16 :: 64 word\<rparr>)) \<and>
   sint (- 8 :: int32) \<le> - 4 \<and>
   nat (- ((sint (- 8 :: int32) + 3) div 4 * 4)) \<le> unat (bump \<lparr>heap = 16, bump = 16 :: 64 word\<rparr>) \<and>
   bump (snd (gcMalloc (- 8) \<lparr>heap = 16, bump = 16 :: 64 word\<rparr>))
     < bump \<lparr>heap = 16, bump = 16 :: 64 word\<rparr>"
proof -
  have r: "rounded 10 = 12"
    by (simp add: rounded_def)
  from gcMalloc_bump_nondecreasing [of 10 "\<lparr>heap = 16, bump = 16 :: 64 word\<rparr>"]
    gcMalloc_bump_nondecreasing [of "- 8" "\<lparr>heap = 16, bump = 16 :: 64 word\<rparr>"]
  show ?thesis
    by (simp add: r)
qed

text \<open>
  Claim C4, as stated, fails: the most negative value divided by \<open>-1\<close> has a nonzero
  divisor and still no quotient in 64 bits; \<open>lDiv\<close> and \<open>lRem\<close> fault there.
\<close>

theorem lDiv_lRem_fault_nonzero_divisor:
  "(- 1 :: int64) \<noteq> 0 \<and>
   lDiv INT64_MIN (- 1) = Inl DivisionFault \<and> lRem INT64_MIN (- 1) = Inl DivisionFault"
  by (simp add: lDiv_def lRem_def)

text \<open>
  Claim C4, amended. \<open>lDiv\<close> and \<open>lRem\<close> fault exactly when \<open>r = 0\<close>, or \<open>l\<close> is the
  most negative value and \<open>r = -1\<close>. For every other \<open>l\<close>, \<open>r\<close>, \<open>lDiv l r\<close> is the
  quotient of the signed values truncated towards zero, and \<open>lRem l r\<close> is the remainder
  of that division: smaller than \<open>r\<close> in absolute value and, where not zero, of the sign of
  \<open>l\<close>. So \<open>7 / 2 = 3\<close> and \<open>-7 / 2 = -3\<close>.
\<close>

theorem lDiv_lRem_truncated:
  "(lDiv l r = Inl DivisionFault \<longleftrightarrow> r = 0 \<or> (l = INT64_MIN \<and> r = - 1)) \<and>
   (lRem l r = Inl DivisionFault \<longleftrightarrow> r = 0 \<or> (l = INT64_MIN \<and> r = - 1)) \<and>
   (r \<noteq> 0 \<and> \<not> (l = INT64_MIN \<and> r = - 1) \<longrightarrow>
      (\<exists>q m. lDiv l r = Inr q \<and> lRem l r = Inr m \<and>
         sint q = sgn (sint l) * sgn (sint r) * (\<bar>sint l\<bar> div \<bar>sint r\<bar>) \<and>
         sint m = sint l - sint q * sint r \<and>
         \<bar>sint m\<bar> < \<bar>sint r\<bar> \<and>
         (sint m \<noteq> 0 \<longrightarrow> sgn (sint m) = sgn (sint l)))) \<and>
   lDiv 7 2 = Inr 3 \<and> lDiv (- 7) 2 = Inr (- 3) \<and>
   lRem 7 2 = Inr 1 \<and> lRem (- 7) 2 = Inr (- 1)"
proof (intro conjI impI)
  show "lDiv l r = Inl DivisionFault \<longleftrightarrow> r = 0 \<or> (l = INT64_MIN \<and> r = - 1)"
    by (simp add: lDiv_def)
  show "lRem l r = Inl DivisionFault \<longleftrightarrow> r = 0 \<or> (l = INT64_MIN \<and> r = - 1)"
    by (simp add: lRem_def)
  show "lDiv 7 2 = Inr 3"
    by (simp add: lDiv_def INT64_MIN_def signed_divide_int_def)
  show "lDiv (- 7) 2 = Inr (- 3)"
    by (simp add: lDiv_def INT64_MIN_def signed_divide_int_def)
  show "lRem 7 2 = Inr 1"
    by (simp add: lRem_def INT64_MIN_def signed_modulo_int_def)
  show "lRem (- 7) 2 = Inr (- 1)"
    by (simp add: lRem_def INT64_MIN_def signed_modulo_int_def)
next
  assume ok: "r \<noteq> 0 \<and> \<not> (l = INT64_MIN \<and> r = - 1)"
  define q :: int64 where "q = word_of_int (sint l sdiv sint r)"
  define m :: int64 where "m = word_of_int (sint l smod sint r)"
  have q: "sint q = sint l sdiv sint r"
    unfolding q_def using ok by (intro sint_lDiv) simp_all
  have m: "sint m = sint l smod sint r"
    unfolding m_def by (rule sint_lRem)
  have "sint r \<noteq> 0"
    using ok by (simp add: signed_eq_0_iff)
  have "lDiv l r = Inr q" "lRem l r = Inr m"
    using ok by (simp_all add: lDiv_def lRem_def q_def m_def)
  moreover have "sint q = sgn (sint l) * sgn (sint r) * (\<bar>sint l\<bar> div \<bar>sint r\<bar>)"
    by (simp add: q signed_divide_int_def)
  moreover have "sint m = sint l - sint q * sint r"
    by (simp add: q m minus_sdiv_mult_eq_smod)
  moreover have "\<bar>sint m\<bar> < \<bar>sint r\<bar>"
    using \<open>sint r \<noteq> 0\<close> by (simp add: m abs_smod)
  moreover have "sint m \<noteq> 0 \<longrightarrow> sgn (sint m) = sgn (sint l)"
    by (simp add: m sgn_smod)
  ultimately show "\<exists>q m. lDiv l r = Inr q \<and> lRem l r = Inr m \<and>
         sint q = sgn (sint l) * sgn (sint r) * (\<bar>sint l\<bar> div \<bar>sint r\<bar>) \<and>
         sint m = sint l - sint q * sint r \<and>
         \<bar>sint m\<bar> < \<bar>sint r\<bar> \<and>
         (sint m \<noteq> 0 \<longrightarrow> sgn (sint m) = sgn (sint l))"
    by blast
qed

theorem lDiv_lRem_truncated_witness:
  "(2 :: int64) \<noteq> 0 \<and> \<not> ((- 7 :: int64) = INT64_MIN \<and> (2 :: int64) = - 1) \<and>
   lDiv (- 7) 2 = Inr (- 3) \<and> lRem (- 7) 2 = Inr (- 1) \<and>
   sint (- 3 :: int64) =
     sgn (sint (- 7 :: int64)) * sgn (sint (2 :: int64)) *
       (\<bar>sint (- 7 :: int64)\<bar> div \<bar>sint (2 :: int64)\<bar>) \<and>
   sint (- 1 :: int64) = sint (- 7 :: int64) - sint (- 3 :: int64) * sint (2 :: int64)"
  using lDiv_lRem_truncated [of "- 7" 2] by (simp add: INT64_MIN_def)

text \<open>
  Claim C5. For all 64-bit \<open>l\<close> and \<open>r\<close>, \<open>lAdd l r\<close> is the two's-complement sum
  wrapping modulo \<open>2 ^ 64\<close>, read unsigned and read signed, and adding \<open>r\<close> to
  \<open>lSub l r\<close> gives \<open>l\<close> back, modulo \<open>2 ^ 64\<close>.
\<close>

theorem lAdd_wraps_lSub_inverse:
  "uint (lAdd l r) = (uint l + uint r) mod 2 ^ 64 \<and>
   sint (lAdd l r) = signed_take_bit 63 (sint l + sint r) \<and>
   lAdd (lSub l r) r = l \<and>
   (sint (lSub l r) + sint r) mod 2 ^ 64 = sint l mod 2 ^ 64"
proof (intro conjI)
  show "uint (lAdd l r) = (uint l + uint r) mod 2 ^ 64"
    by (simp add: lAdd_def uint_word_ariths)
  show "sint (lAdd l r) = signed_take_bit 63 (sint l + sint r)"
    by (simp add: lAdd_def sint_word_ariths)
  show "lAdd (lSub l r) r = l"
    by (simp add: lAdd_def lSub_def)
  have "(word_of_int (sint (l - r) + sint r) :: int64) = word_of_int (sint l)"
    by simp
  then show "(sint (lSub l r) + sint r) mod 2 ^ 64 = sint l mod 2 ^ 64"
    unfolding lSub_def word_of_int_eq_iff by (simp add: take_bit_eq_mod)
qed

text \<open>
  Claim C6. For every 64-bit \<open>x\<close> other than the most negative value, negating twice
  gives \<open>x\<close> back (and one negation is the negation of the signed value); the most
  negative value negates to itself.
\<close>

theorem lNeg_involution:
  "(x \<noteq> INT64_MIN \<longrightarrow> lNeg (lNeg x) = x \<and> sint (lNeg x) = - sint x) \<and>
   lNeg INT64_MIN = INT64_MIN"
  by (simp add: lNeg_def sint_neg64) (simp add: INT64_MIN_def)

theorem lNeg_involution_witness:
  "(5 :: int64) \<noteq> INT64_MIN \<and> lNeg (lNeg 5) = 5 \<and> sint (lNeg 5) = - sint (5 :: int64)"
  using lNeg_involution [of 5] by (simp add: INT64_MIN_def)

text \<open>
  Claim C7. For every 64-bit \<open>l\<close> and every 32-bit shift amount \<open>s\<close>, of either sign,
  \<open>lShl l s\<close> is \<open>l\<close> shifted left by \<open>s mod 64\<close> bit positions, the bits shifted out
  discarded: its unsigned value is \<open>l * 2 ^ (s mod 64) mod 2 ^ 64\<close>. So a count of 64
  shifts by nothing, and a count of \<open>-1\<close> shifts by 63.
\<close>

theorem lShl_count_mod_64:
  "lShl l s = push_bit (nat (sint s mod 64)) l \<and>
   uint (lShl l s) = (uint l * 2 ^ nat (sint s mod 64)) mod 2 ^ 64 \<and>
   nat (sint s mod 64) < 64 \<and>
   lShl 1 64 = 1 \<and> lShl 5 3 = 40 \<and> lShl 5 (- 1) = INT64_MIN \<and> lShl (- 1) 63 = INT64_MIN"
proof (intro conjI)
  show eq: "lShl l s = push_bit (nat (sint s mod 64)) l"
    by (simp only: lShl_def shift_count_mod_64)
  have "uint (push_bit n l) = (uint l * 2 ^ n) mod 2 ^ 64" for n
  proof -
    have "uint (push_bit n l) = take_bit LENGTH(64) (push_bit n (uint l))"
      by (rule unsigned_push_bit_eq)
    also have "\<dots> = (uint l * 2 ^ n) mod 2 ^ 64"
      by (simp only: take_bit_eq_mod push_bit_eq_mult) simp
    finally show ?thesis .
  qed
  then show "uint (lShl l s) = (uint l * 2 ^ nat (sint s mod 64)) mod 2 ^ 64"
    by (simp only: eq)
  show "nat (sint s mod 64) < 64"
    by simp
  show "lShl 1 64 = 1"
    by (simp add: lShl_def)
  show "lShl 5 3 = 40"
    by (simp add: lShl_def)
  show "lShl 5 (- 1) = INT64_MIN"
    by (simp add: lShl_def INT64_MIN_def)
  have "lShl (- 1) 63 = push_bit 63 (- 1)"
    by (simp add: lShl_def)
  also have "\<dots> = - (2 ^ 63 :: int64)"
    by (simp only: push_bit_minus_one_eq_not_mask minus_exp_eq_not_mask)
  finally show "lShl (- 1) 63 = INT64_MIN"
    by (simp only: INT64_MIN_def)
qed

text \<open>
  Claim C8, as stated, fails: when the host cannot satisfy the request and \<open>malloc\<close>
  returns the null pointer, \<open>main\<close> stores it in \<open>heap\<close> and \<open>bump\<close> and returns with
  status 0; nothing fails.
\<close>

theorem main_null_reservation_returns_normally:
  "main malloc_null (globals_init :: 64 globals) = (0, \<lparr>heap = 0, bump = 0\<rparr>)"
  by (simp add: main_def malloc_null_def globals_init_def)

text \<open>
  Claim C8, amended. \<open>main\<close> takes no capacity: it asks the host for one block of
  16777216 bytes (16 MiB), sets both \<open>heap\<close> and \<open>bump\<close> to the address the host returns,
  whatever it is, and returns with status 0.
\<close>

theorem main_sets_heap_and_bump:
  "main malloc g = (0, \<lparr>heap = malloc 16777216, bump = malloc 16777216\<rparr>)"
  by (cases g) (simp add: main_def Let_def)

text \<open>
  Claim C9. For all 64-bit \<open>l\<close> and \<open>r\<close>, \<open>lCmp\<close> writes \<open>1\<close> exactly when \<open>l > r\<close> as
  signed values, \<open>-1\<close> exactly when \<open>l < r\<close>, and \<open>0\<close> exactly when \<open>l = r\<close>; so also at
  \<open>l = r = 0\<close> and at the two ends of the 64-bit range.
\<close>

theorem lCmp_three_way:
  "(lCmp l r = 1 \<longleftrightarrow> sint l > sint r) \<and>
   (lCmp l r = - 1 \<longleftrightarrow> sint l < sint r) \<and>
   (lCmp l r = 0 \<longleftrightarrow> l = r) \<and>
   lCmp 0 0 = 0 \<and>
   lCmp INT64_MIN INT64_MAX = - 1 \<and> lCmp INT64_MAX INT64_MIN = 1 \<and>
   lCmp INT64_MIN INT64_MIN = 0 \<and> lCmp INT64_MAX INT64_MAX = 0"
proof (intro conjI)
  show "lCmp l r = 1 \<longleftrightarrow> sint l > sint r"
    by (simp add: lCmp_def)
  show "lCmp l r = - 1 \<longleftrightarrow> sint l < sint r"
    by (simp add: lCmp_def)
  show "lCmp l r = 0 \<longleftrightarrow> l = r"
    by (auto simp: lCmp_def dest: sint_eqD64)
qed (simp_all add: lCmp_def INT64_MIN_def INT64_MAX_def)

text \<open>
  Claim C10. For every 32-bit size, the amount \<open>(size + 3) & ~3\<close> added to \<open>bump\<close> is a
  multiple of 4 (its two low bits are clear). So after any run of calls, of any sizes,
  that started with \<open>bump = heap\<close>, the distance of \<open>bump\<close> from the base is a multiple of
  4, and so is the distance of every address returned.
\<close>

theorem gcMalloc_keeps_alignment:
  "4 dvd sint (((sz :: int32) + 3) AND NOT 3) \<and> ((sz + 3) AND NOT 3) AND 3 = 0 \<and>
   (bump g = heap g \<longrightarrow>
      4 dvd unat (bump (snd (gcMallocs sizes g)) - heap g) \<and>
      (\<forall>a \<in> set (fst (gcMallocs sizes g)). 4 dvd unat (a - heap g)))"
proof (intro conjI impI)
  show "4 dvd sint ((sz + 3) AND NOT 3)"
    by (rule four_dvd_rounded)
  show "((sz + 3) AND NOT 3) AND 3 = 0"
  proof -
    have "(NOT 3 :: int32) AND 3 = 0" by simp
    then show ?thesis by (simp only: and.assoc and_zero_eq)
  qed
next
  assume "bump g = heap g"
  then have "4 dvd unat (bump g - heap g)" by simp
  from gcMallocs_aligned [OF this]
  show "4 dvd unat (bump (snd (gcMallocs sizes g)) - heap g)"
    and "\<forall>a \<in> set (fst (gcMallocs sizes g)). 4 dvd unat (a - heap g)"
    by blast+
qed

theorem gcMalloc_keeps_alignment_witness:
  "bump \<lparr>heap = 4096, bump = 4096 :: 64 word\<rparr> = heap \<lparr>heap = 4096, bump = 4096 :: 64 word\<rparr> \<and>
   fst (gcMallocs [10, - 8, 0, 1] \<lparr>heap = 4096, bump = 4096 :: 64 word\<rparr>)
     = [4096, 4108, 4100, 4100] \<and>
   4 dvd unat (bump (snd (gcMallocs [10, - 8, 0, 1] \<lparr>heap = 4096, bump = 4096 :: 64 word\<rparr>))
      - heap \<lparr>heap = 4096, bump = 4096 :: 64 word\<rparr>) \<and>
   4 dvd unat ((4108 :: 64 word) - 4096)"
  using gcMalloc_keeps_alignment [of 10 "\<lparr>heap = 4096, bump = 4096 :: 64 word\<rparr>" "[10, - 8, 0, 1]"]
  by (simp add: gcMalloc_def)

end
